theory Spec2Isabelle
  imports Main "HOL-Library.Sublist" "HOL-Library.Char_ord"
begin

section \<open>Python primitives used by the two scripts\<close>

text \<open>
  Strings are lists of \<^typ>\<open>char\<close>; case tests and case conversion follow the ASCII
  letters. Every operation of the scripts that can raise is a function into
  \<open>py_error + 'a\<close>, with \<open>Inl\<close> the exception.
\<close>

datatype py_error = IndexError | KeyError | ValueError | OSError

abbreviation NL :: char where
  "NL \<equiv> CHR 0x0A"

definition isupper :: "char \<Rightarrow> bool" where
  "isupper c = (65 \<le> (of_char c :: nat) \<and> (of_char c :: nat) \<le> 90)"

definition islower :: "char \<Rightarrow> bool" where
  "islower c = (97 \<le> (of_char c :: nat) \<and> (of_char c :: nat) \<le> 122)"

definition upper_char :: "char \<Rightarrow> char" where
  "upper_char c = (if islower c then char_of ((of_char c :: nat) - 32) else c)"

definition lower_char :: "char \<Rightarrow> char" where
  "lower_char c = (if isupper c then char_of ((of_char c :: nat) + 32) else c)"

text \<open>\<^verbatim>\<open>s.capitalize()\<close>: first character upper case, the rest lower case.\<close>

fun capitalize :: "string \<Rightarrow> string" where
  "capitalize [] = []"
| "capitalize (c # cs) = upper_char c # map lower_char cs"

text \<open>
  \<^verbatim>\<open>s.find(sub)\<close>: the lowest index at which \<open>sub\<close> occurs in \<open>s\<close>, if any.
  \<^verbatim>\<open>s.index(sub)\<close> is the same search and raises ValueError when there is none.
\<close>

fun py_find :: "string \<Rightarrow> string \<Rightarrow> nat option" where
  "py_find sub [] = (if sub = [] then Some 0 else None)"
| "py_find sub (c # cs) =
     (if prefix sub (c # cs) then Some 0 else map_option Suc (py_find sub cs))"

definition py_index :: "string \<Rightarrow> string \<Rightarrow> py_error + nat" where
  "py_index s sub = (case py_find sub s of None \<Rightarrow> Inl ValueError | Some i \<Rightarrow> Inr i)"

text \<open>
  \<^verbatim>\<open>s.split(sep)\<close>: the pieces of \<open>s\<close> between the occurrences of \<open>sep\<close>, found
  from the left and not overlapping. An empty separator raises ValueError.
\<close>

function split_parts :: "string \<Rightarrow> string \<Rightarrow> string list" where
  "split_parts sep s =
     (if sep = [] then [s]
      else case py_find sep s of
             None \<Rightarrow> [s]
           | Some i \<Rightarrow> take i s # split_parts sep (drop (i + length sep) s))"
  by pat_completeness auto

lemma py_find_bound: "py_find sub s = Some i \<Longrightarrow> i + length sub \<le> length s"
proof (induction s arbitrary: i)
  case Nil
  then show ?case by (simp split: if_splits)
next
  case (Cons c cs)
  show ?case
  proof (cases "prefix sub (c # cs)")
    case True
    then have "length sub \<le> length (c # cs)" by (rule prefix_length_le)
    with True Cons.prems show ?thesis by simp
  next
    case False
    with Cons.prems obtain j where "py_find sub cs = Some j" and "i = Suc j"
      by auto
    with Cons.IH show ?thesis by fastforce
  qed
qed

termination split_parts
proof (relation "measure (\<lambda>(sep, s). length s)")
  show "wf (measure (\<lambda>(sep, s). length s))" by simp
next
  fix sep s :: string and i
  assume "sep \<noteq> []" and "py_find sep s = Some i"
  then have "i + length sep \<le> length s" and "0 < length sep"
    by (simp_all add: py_find_bound)
  then have "length s - (i + length sep) < length s"
    by arith
  then show "((sep, drop (i + length sep) s), (sep, s)) \<in> measure (\<lambda>(sep, s). length s)"
    by simp
qed

declare split_parts.simps [simp del]

definition py_split :: "string \<Rightarrow> string \<Rightarrow> py_error + string list" where
  "py_split s sep = (if sep = [] then Inl ValueError else Inr (split_parts sep s))"

text \<open>\<^verbatim>\<open>xs[i]\<close> for an index \<open>i \<ge> 0\<close>: IndexError out of range.\<close>

definition py_nth :: "'a list \<Rightarrow> nat \<Rightarrow> py_error + 'a" where
  "py_nth xs i = (if i < length xs then Inr (xs ! i) else Inl IndexError)"

section \<open>The corpus builder (english\_disgraced\_poetry.py)\<close>

definition poem_url :: string where
  "poem_url = ''C:/Users/fawaz/Documents/free_online_poems/topics/''"

text \<open>
  Lines 14 to 22: the first character is copied, and every later character is
  copied with a space put before it when it is upper case.
\<close>

definition space_capitals :: "string \<Rightarrow> string" where
  "space_capitals file_name =
     foldl (\<lambda>new_file_name i.
              if isupper (file_name ! i) then new_file_name @ '' '' @ [file_name ! i]
              else new_file_name @ [file_name ! i])
           [file_name ! 0] [1..<length file_name]"

text \<open>
  Lines 13 to 29: the title and the author, read off the file name. The three
  subscripts \<^verbatim>\<open>[1]\<close>, \<^verbatim>\<open>[0]\<close> and \<^verbatim>\<open>[1]\<close> raise IndexError when the marker
  is absent, when nothing follows it, and when \<^verbatim>\<open>Poemby\<close> is absent.
\<close>

definition parse_file_name :: "string \<Rightarrow> string \<Rightarrow> py_error + (string \<times> string)" where
  "parse_file_name folder file =
     (case py_split file (capitalize folder @ ''Poems'') of
        Inl e \<Rightarrow> Inl e
      | Inr parts \<Rightarrow>
     (case py_nth parts 1 of
        Inl e \<Rightarrow> Inl e
      | Inr file_name \<Rightarrow>
     (case py_nth file_name 0 of
        Inl e \<Rightarrow> Inl e
      | Inr _ \<Rightarrow>
     (case py_split (space_capitals file_name) ''Poemby'' of
        Inl e \<Rightarrow> Inl e
      | Inr poem_info \<Rightarrow>
     (case py_nth poem_info 0 of
        Inl e \<Rightarrow> Inl e
      | Inr title \<Rightarrow>
     (case py_nth poem_info 1 of
        Inl e \<Rightarrow> Inl e
      | Inr rest \<Rightarrow>
     (case py_split rest ''.'' of
        Inl e \<Rightarrow> Inl e
      | Inr pieces \<Rightarrow>
     (case py_nth pieces 0 of
        Inl e \<Rightarrow> Inl e
      | Inr name \<Rightarrow> Inr (title, drop 1 name)))))))))"

text \<open>
  Lines 41 to 43: a newline is put at index \<open>60 * i\<close> of the line as it stands
  after the earlier insertions, for \<open>i\<close> from 1 below \<open>len(line) / 60\<close> rounded down
  (\<^verbatim>\<open>int\<close> of the quotient, which is the integer quotient for every length a
  line can have). A Python slice bound beyond the end is clamped, as
  \<^const>\<open>take\<close> and \<^const>\<open>drop\<close> are.
\<close>

definition reflow :: "string \<Rightarrow> string" where
  "reflow line =
     foldl (\<lambda>line i. take (i * 60) line @ [NL] @ drop (i * 60) line)
           line [1..<length line div 60]"

text \<open>
  The state of the script: the two buffers and what has been printed. The files
  on disk are a function from a path to what \<^verbatim>\<open>open(path).readlines()\<close> gives
  there: the lines, or the exception that opening or reading raises.
\<close>

record builder =
  mega_string :: string
  mini_string :: string
  console :: "string list"

type_synonym file_system = "string \<Rightarrow> py_error + string list"

datatype file_outcome =
    Included
  | Filtered
  | InnerFailure py_error
  | OuterFailure py_error

text \<open>
  Lines 12 to 55, the body of the loop over the files of a folder. An exception
  of lines 13 to 30 is caught at line 53, which prints; an exception of lines 32
  to 49 is caught at line 50, which clears the buffer of the poem. Line 49 is the
  only assignment to \<^verbatim>\<open>mega_string\<close>.
\<close>

definition process_file ::
    "file_system \<Rightarrow> string \<Rightarrow> string \<Rightarrow> builder \<Rightarrow> file_outcome \<times> builder" where
  "process_file fs folder file st =
     (case parse_file_name folder file of
        Inl e \<Rightarrow> (OuterFailure e, st\<lparr>console := console st @ [''yikes'']\<rparr>)
      | Inr (title, author) \<Rightarrow>
          let st1 = st\<lparr>mini_string := ''Poem Start'' @ [NL]\<rparr>;
              st2 = st1\<lparr>mini_string := mini_string st1 @ title @ [NL, NL]\<rparr>
          in (case fs (poem_url @ folder @ ''/'' @ file) of
                Inl e \<Rightarrow> (InnerFailure e, st2\<lparr>mini_string := []\<rparr>)
              | Inr lines \<Rightarrow>
                  if 20 < length lines then (Filtered, st2\<lparr>mini_string := []\<rparr>)
                  else
                    let st3 = foldl (\<lambda>s line. s\<lparr>mini_string := mini_string s @ reflow line\<rparr>)
                                    st2 lines;
                        st4 = st3\<lparr>mini_string :=
                                     mini_string st3 @ [NL] @ ''END'' @ [NL] @ author @ [NL, NL, NL]\<rparr>
                    in (Included, st4\<lparr>mega_string := mega_string st4 @ mini_string st4\<rparr>)))"

text \<open>
  Lines 4 to 11 and 56 to 60: the loops over the folders and their files, given
  as the directory listing; then \<^verbatim>\<open>mega_string\<close> is printed and written to the
  output file. The result is the state at the end and the text written.
\<close>

definition process_folder :: "file_system \<Rightarrow> builder \<Rightarrow> string \<times> string list \<Rightarrow> builder" where
  "process_folder fs st entry =
     foldl (\<lambda>s file. snd (process_file fs (fst entry) file s)) st (snd entry)"

definition corpus_builder ::
    "file_system \<Rightarrow> (string \<times> string list) list \<Rightarrow> builder \<times> string" where
  "corpus_builder fs listing =
     (let st = foldl (process_folder fs)
                 \<lparr>mega_string = [], mini_string = [], console = []\<rparr> listing
      in (st\<lparr>console := console st @ [mega_string st]\<rparr>, mega_string st))"

text \<open>
  The reflow as the specification words it: pieces of at most 60 characters,
  \<open>\<lceil>L / 60\<rceil>\<close> of them, each but the last followed by a newline.
\<close>

function reflow_spec :: "string \<Rightarrow> string" where
  "reflow_spec line =
     (if length line \<le> 60 then line
      else take 60 line @ [NL] @ reflow_spec (drop 60 line))"
  by pat_completeness auto
termination
  by (relation "measure length") auto

declare reflow_spec.simps [simp del]

section \<open>The generation loop (poem\_gen.py)\<close>

text \<open>
  Lines 21 to 30: the vocabulary is the sorted list of the distinct characters of
  the corpus; \<open>stoi\<close> sends a character to its index, \<open>itos\<close> an index to its
  character. A Python dict is a partial map.
\<close>

record char_dataset =
  stoi :: "char \<rightharpoonup> nat"
  itos :: "nat \<rightharpoonup> char"
  block_size :: nat
  vocab_size :: nat
  data :: string

definition CharDataset :: "string \<Rightarrow> nat \<Rightarrow> char_dataset" where
  "CharDataset txt bsize =
     (let chars = sorted_list_of_set (set txt)
      in \<lparr>stoi = map_of (map (\<lambda>(i, ch). (ch, i)) (enumerate 0 chars)),
          itos = map_of (enumerate 0 chars),
          block_size = bsize,
          vocab_size = length chars,
          data = txt\<rparr>)"

text \<open>
  \<^verbatim>\<open>[d[s] for s in xs]\<close>: the list of the values, or KeyError at the first key
  that the dict does not have.
\<close>

fun lookup_all :: "('a \<rightharpoonup> 'b) \<Rightarrow> 'a list \<Rightarrow> py_error + 'b list" where
  "lookup_all d [] = Inr []"
| "lookup_all d (s # xs) =
     (case d s of
        None \<Rightarrow> Inl KeyError
      | Some v \<Rightarrow> (case lookup_all d xs of Inl e \<Rightarrow> Inl e | Inr vs \<Rightarrow> Inr (v # vs)))"

text \<open>
  What the script takes from outside at its \<open>k\<close>-th attempt (counted from 0): the
  random word, as \<^verbatim>\<open>str\<close> prints it, and the tokens that \<^verbatim>\<open>sample\<close> returns for
  the tokens of the prompt. The calls into the libraries are taken to return:
  an exception raised inside them is not part of this model. Loading the
  checkpoint, drawing the word and sampling are recorded as events, in the order
  in which the script does them.
\<close>

record collaborators =
  get_random_word :: "nat \<Rightarrow> string"
  sample :: "nat \<Rightarrow> nat list \<Rightarrow> nat list"

datatype event = LoadCheckpoint | RandomWord | Sample

text \<open>
  The variables of the loop, with the number of passes begun (\<open>attempt\<close>, the
  index at which the collaborators are asked next) and the events so far.
  Before the first pass only \<^verbatim>\<open>number_of_line_breaks\<close> is bound, to 1000; the
  other three variables are given empty values here.
\<close>

record gen_state =
  number_of_line_breaks :: nat
  completion :: string
  first_end :: nat
  generation :: string
  attempt :: nat
  events :: "event list"

definition initial :: gen_state where
  "initial = \<lparr>number_of_line_breaks = 1000, completion = [], first_end = 0,
               generation = [], attempt = 0, events = []\<rparr>"

text \<open>Line 108: the prompt of the \<open>k\<close>-th attempt.\<close>

definition prompt_text :: "collaborators \<Rightarrow> nat \<Rightarrow> string" where
  "prompt_text env k = ''Poem Start'' @ [NL] @ get_random_word env k @ [NL, NL]"

text \<open>
  Lines 107 to 114, the body of the loop: \<open>Inr\<close> the state at the end of the
  body, \<open>Inl\<close> the exception that ends the program and the state it leaves.
\<close>

definition attempt_body ::
    "collaborators \<Rightarrow> char_dataset \<Rightarrow> gen_state \<Rightarrow> (py_error \<times> gen_state) + gen_state" where
  "attempt_body env ds st =
     (let k = attempt st;
          st1 = st\<lparr>attempt := Suc k, events := events st @ [LoadCheckpoint]\<rparr>;
          st2 = st1\<lparr>events := events st1 @ [RandomWord]\<rparr>
      in case lookup_all (stoi ds) (prompt_text env k) of
           Inl e \<Rightarrow> Inl (e, st2)
         | Inr x \<Rightarrow>
             let y = sample env k x;
                 st3 = st2\<lparr>events := events st2 @ [Sample]\<rparr>
             in (case lookup_all (itos ds) y of
                   Inl e \<Rightarrow> Inl (e, st3)
                 | Inr c \<Rightarrow>
                     let st4 = st3\<lparr>completion := c\<rparr>
                     in (case py_index c ''END'' of
                           Inl e \<Rightarrow> Inl (e, st4)
                         | Inr i \<Rightarrow>
                             let g = take (i + 3) c
                             in Inr (st4\<lparr>first_end := i, generation := g,
                                         number_of_line_breaks := count_list g NL\<rparr>))))"

text \<open>
  Lines 105 to 114: the loop. It need not end, so it is a partial function:
  \<open>None\<close> is the run that samples for ever.
\<close>

partial_function (option) generation_loop ::
    "collaborators \<Rightarrow> char_dataset \<Rightarrow> gen_state \<Rightarrow> ((py_error \<times> gen_state) + gen_state) option" where
  "generation_loop env ds st =
     (if 18 < number_of_line_breaks st
      then (case attempt_body env ds st of
              Inl failure \<Rightarrow> Some (Inl failure)
            | Inr st' \<Rightarrow> generation_loop env ds st')
      else Some (Inr st))"

text \<open>
  The whole script: the corpus is read, the loop runs from line 105, and lines
  116 and 117 write the file. The result is the text written, or the exception.
\<close>

definition poem_gen :: "collaborators \<Rightarrow> string \<Rightarrow> (py_error + string) option" where
  "poem_gen env txt =
     (case generation_loop env (CharDataset txt 128) initial of
        None \<Rightarrow> None
      | Some (Inl (e, st)) \<Rightarrow> Some (Inl e)
      | Some (Inr st) \<Rightarrow>
          Some (Inr (take (first_end st + 3) (completion st) @ [NL] @ ''Poetic AI'')))"

declare generation_loop.simps [code]

text \<open>
  Lines 108 to 111 on their own: the completion decoded at the \<open>k\<close>-th attempt,
  or the KeyError of one of the two dict lookups.
\<close>

definition completion_of :: "collaborators \<Rightarrow> char_dataset \<Rightarrow> nat \<Rightarrow> py_error + string" where
  "completion_of env ds k =
     (case lookup_all (stoi ds) (prompt_text env k) of
        Inl e \<Rightarrow> Inl e
      | Inr x \<Rightarrow> lookup_all (itos ds) (sample env k x))"

text \<open>
  How the \<open>k\<close>-th attempt ends, read off the body of the loop: the exception, or
  the number of line breaks that the test of line 106 then sees.
\<close>

definition line_breaks_of :: "collaborators \<Rightarrow> char_dataset \<Rightarrow> nat \<Rightarrow> py_error + nat" where
  "line_breaks_of env ds k =
     (case attempt_body env ds (initial\<lparr>attempt := k\<rparr>) of
        Inl (e, _) \<Rightarrow> Inl e
      | Inr st \<Rightarrow> Inr (number_of_line_breaks st))"

definition rejected :: "collaborators \<Rightarrow> char_dataset \<Rightarrow> nat \<Rightarrow> bool" where
  "rejected env ds k = (case line_breaks_of env ds k of Inl _ \<Rightarrow> False | Inr n \<Rightarrow> 18 < n)"

definition accepted :: "collaborators \<Rightarrow> char_dataset \<Rightarrow> nat \<Rightarrow> bool" where
  "accepted env ds k = (case line_breaks_of env ds k of Inl _ \<Rightarrow> False | Inr n \<Rightarrow> n \<le> 18)"

text \<open>The state in which a run of the loop ends, accepted or not.\<close>

definition final_state :: "(py_error \<times> gen_state) + gen_state \<Rightarrow> gen_state" where
  "final_state r = (case r of Inl (e, st) \<Rightarrow> st | Inr st \<Rightarrow> st)"

abbreviation attempt_events :: "event list" where
  "attempt_events \<equiv> [LoadCheckpoint, RandomWord, Sample]"

section \<open>Example inputs\<close>

text \<open>
  A corpus of fourteen distinct characters, whose vocabulary in sorted order
  is newline, space, \<open>D E N P S a e m o r t x\<close>, numbered from 0; collaborators
  that return the \<open>k\<close>-th word of a list (\<open>a\<close> beyond it) and append the \<open>k\<close>-th
  list of tokens to the prompt; and a disk on which every path gives the same
  result.
\<close>

definition example_corpus :: string where
  "example_corpus = ''Poem Start'' @ [NL] @ ''aENDx''"

definition example_env :: "string list \<Rightarrow> nat list list \<Rightarrow> collaborators" where
  "example_env ws outs =
     \<lparr>get_random_word = (\<lambda>k. if k < length ws then ws ! k else ''a''),
      sample = (\<lambda>k x. x @ (if k < length outs then outs ! k else []))\<rparr>"

definition every_path :: "py_error + string list \<Rightarrow> file_system" where
  "every_path r path = r"

section \<open>Reflow\<close>

lemma insert_newlines_filter:
  "filter (\<lambda>c. c \<noteq> NL) (foldl (\<lambda>line i. take (i * 60) line @ [NL] @ drop (i * 60) line) line is)
     = filter (\<lambda>c. c \<noteq> NL) line"
proof (induction "is" arbitrary: line)
  case Nil
  show ?case by simp
next
  case (Cons i "is")
  have "filter (\<lambda>c. c \<noteq> NL) (take (i * 60) line @ [NL] @ drop (i * 60) line)
          = filter (\<lambda>c. c \<noteq> NL) (take (i * 60) line) @ filter (\<lambda>c. c \<noteq> NL) (drop (i * 60) line)"
    by simp
  also have "\<dots> = filter (\<lambda>c. c \<noteq> NL) (take (i * 60) line @ drop (i * 60) line)"
    by (simp only: filter_append)
  also have "\<dots> = filter (\<lambda>c. c \<noteq> NL) line"
    by (simp only: append_take_drop_id)
  finally show ?case
    using Cons.IH [of "take (i * 60) line @ [NL] @ drop (i * 60) line"] by simp
qed

text \<open>
  C9. The reflow only inserts newline characters: with every newline deleted,
  the reflowed line and the line it was made from are the same string.
\<close>

theorem reflow_only_inserts_newlines:
  "filter (\<lambda>c. c \<noteq> NL) (reflow line) = filter (\<lambda>c. c \<noteq> NL) line"
  unfolding reflow_def by (rule insert_newlines_filter)

lemma insert_newlines_length:
  "length (foldl (\<lambda>line i. take (i * 60) line @ [NL] @ drop (i * 60) line) line is)
     = length line + length is"
  by (induction "is" arbitrary: line) auto

text \<open>
  What the loop does to the length: a line of \<open>L\<close> characters gets
  \<open>L div 60 - 1\<close> newlines, none at all below 120 characters.
\<close>

lemma reflow_length: "length (reflow line) = length line + (length line div 60 - 1)"
  unfolding reflow_def by (simp only: insert_newlines_length length_upt)

lemma reflow_below_120: "length line < 120 \<Longrightarrow> reflow line = line"
  by (simp add: reflow_def)

text \<open>
  C2. A line of \<open>L\<close> characters is split into \<open>\<lceil>L / 60\<rceil>\<close> pieces of at most 60
  characters, each but the last followed by a newline. The loop of lines 41 to
  43 stops one step early and counts its indices in the line that already holds
  the earlier newlines: a line of 61 characters is left in one piece of 61, where
  the reflow of the specification breaks it after 60; a line of 180 characters
  comes out as pieces of 60, 59 and 61.
\<close>

theorem reflow_61_and_180_characters:
  "reflow (replicate 61 CHR ''a'') = replicate 61 CHR ''a'' \<and>
   reflow_spec (replicate 61 CHR ''a'') = replicate 60 CHR ''a'' @ [NL] @ ''a'' \<and>
   reflow (replicate 180 CHR ''a'') =
     replicate 60 CHR ''a'' @ [NL] @ replicate 59 CHR ''a'' @ [NL] @ replicate 61 CHR ''a'' \<and>
   reflow_spec (replicate 180 CHR ''a'') =
     replicate 60 CHR ''a'' @ [NL] @ replicate 60 CHR ''a'' @ [NL] @ replicate 60 CHR ''a''"
  by code_simp

section \<open>One file of the corpus\<close>

text \<open>
  C3, as the specification has it: for every file of more than 20 lines the
  buffer of the poem is cleared, the file is skipped and the output buffer is
  left as it was. A file of 21 lines named \<^verbatim>\<open>CatPoem.txt\<close> in the folder
  \<^verbatim>\<open>nature\<close> is skipped at line 13, before it is opened: the output buffer is
  left as it was, \<^verbatim>\<open>yikes\<close> is printed, and the buffer of the poem keeps what the
  file before it left there.
\<close>

theorem long_file_with_unparsed_name_keeps_buffer:
  "20 < length (replicate 21 (''x'' @ [NL])) \<and>
   process_file (every_path (Inr (replicate 21 (''x'' @ [NL])))) ''nature'' ''CatPoem.txt''
       \<lparr>mega_string = ''abc'', mini_string = ''old'', console = []\<rparr>
     = (OuterFailure IndexError,
        \<lparr>mega_string = ''abc'', mini_string = ''old'', console = [''yikes'']\<rparr>) \<and>
   mini_string (snd (process_file (every_path (Inr (replicate 21 (''x'' @ [NL]))))
       ''nature'' ''CatPoem.txt''
       \<lparr>mega_string = ''abc'', mini_string = ''old'', console = []\<rparr>)) \<noteq> []"
proof -
  have "parse_file_name ''nature'' ''CatPoem.txt'' = Inl IndexError"
    by code_simp
  then show ?thesis
    by (simp add: process_file_def)
qed

text \<open>
  C3, amended. A file of more than 20 lines adds nothing to the output:
  whatever its name, \<open>mega_string\<close> is after the file what it was before it. When
  the name parses, so that the file is opened and line 37 is reached, the buffer
  of the poem is cleared and nothing else of the state changes. When the name
  does not parse, the file is skipped at the outer handler: \<^verbatim>\<open>yikes\<close> is printed
  and the buffer of the poem is not touched.
\<close>

theorem over_20_lines_contribute_nothing:
  assumes "fs (poem_url @ folder @ ''/'' @ file) = Inr lines" and "20 < length lines"
  shows "mega_string (snd (process_file fs folder file st)) = mega_string st \<and>
         (\<forall>title author. parse_file_name folder file = Inr (title, author) \<longrightarrow>
            process_file fs folder file st = (Filtered, st\<lparr>mini_string := []\<rparr>)) \<and>
         (\<forall>e. parse_file_name folder file = Inl e \<longrightarrow>
            process_file fs folder file st
              = (OuterFailure e, st\<lparr>console := console st @ [''yikes'']\<rparr>))"
  using assms by (auto simp: process_file_def Let_def split: sum.splits prod.splits)

theorem over_20_lines_witness:
  "20 < length (replicate 21 (''x'' @ [NL])) \<and>
   parse_file_name ''nature'' ''NaturePoemsTheOldCatPoembyJaneDoe.txt''
     = Inr (''The Old Cat '', ''Jane Doe'') \<and>
   process_file (every_path (Inr (replicate 21 (''x'' @ [NL]))))
       ''nature'' ''NaturePoemsTheOldCatPoembyJaneDoe.txt''
       \<lparr>mega_string = ''abc'', mini_string = ''old'', console = []\<rparr>
     = (Filtered, \<lparr>mega_string = ''abc'', mini_string = [], console = []\<rparr>) \<and>
   parse_file_name ''nature'' ''Long.txt'' = Inl IndexError \<and>
   process_file (every_path (Inr (replicate 21 (''x'' @ [NL])))) ''nature'' ''Long.txt''
       \<lparr>mega_string = ''abc'', mini_string = ''old'', console = []\<rparr>
     = (OuterFailure IndexError,
        \<lparr>mega_string = ''abc'', mini_string = ''old'', console = [''yikes'']\<rparr>)"
proof -
  let ?lines = "replicate 21 (''x'' @ [NL])"
  let ?file = "''NaturePoemsTheOldCatPoembyJaneDoe.txt''"
  let ?st = "\<lparr>mega_string = ''abc'', mini_string = ''old'', console = []\<rparr>"
  have h1: "every_path (Inr ?lines) (poem_url @ ''nature'' @ ''/'' @ ?file) = Inr ?lines"
    by (simp add: every_path_def)
  have h1': "every_path (Inr ?lines) (poem_url @ ''nature'' @ ''/'' @ ''Long.txt'') = Inr ?lines"
    by (simp add: every_path_def)
  have h2: "20 < length ?lines"
    by simp
  have h3: "parse_file_name ''nature'' ?file = Inr (''The Old Cat '', ''Jane Doe'')"
    by code_simp
  have h4: "parse_file_name ''nature'' ''Long.txt'' = Inl IndexError"
    by code_simp
  from over_20_lines_contribute_nothing
         [of "every_path (Inr ?lines)" "''nature''" ?file ?lines ?st, OF h1 h2] h3
  have parsed: "process_file (every_path (Inr ?lines)) ''nature'' ?file ?st
        = (Filtered, ?st\<lparr>mini_string := []\<rparr>)"
    by blast
  from over_20_lines_contribute_nothing
         [of "every_path (Inr ?lines)" "''nature''" "''Long.txt''" ?lines ?st, OF h1' h2] h4
  have unparsed: "process_file (every_path (Inr ?lines)) ''nature'' ''Long.txt'' ?st
        = (OuterFailure IndexError, ?st\<lparr>console := console ?st @ [''yikes'']\<rparr>)"
    by blast
  from h2 h3 h4 parsed unparsed show ?thesis by simp
qed

text \<open>
  C8. A file whose handling raises is skipped and leaves \<open>mega_string\<close> as it
  was. When the name does not parse (lines 13 to 29), \<^verbatim>\<open>yikes\<close> is printed and
  nothing else changes; when the name parses and opening or reading the file
  raises, nothing is printed and only the buffer of the poem is cleared.
\<close>

theorem failed_file_leaves_output_unchanged:
  assumes "parse_file_name folder file = Inl e \<or> fs (poem_url @ folder @ ''/'' @ file) = Inl e"
  shows "mega_string (snd (process_file fs folder file st)) = mega_string st \<and>
         (\<forall>e'. parse_file_name folder file = Inl e' \<longrightarrow>
            process_file fs folder file st
              = (OuterFailure e', st\<lparr>console := console st @ [''yikes'']\<rparr>)) \<and>
         (\<forall>t. parse_file_name folder file = Inr t \<longrightarrow>
            process_file fs folder file st = (InnerFailure e, st\<lparr>mini_string := []\<rparr>))"
  using assms by (auto simp: process_file_def Let_def split: sum.splits prod.splits)

theorem failed_file_witness:
  "parse_file_name ''nature'' ''CatPoem.txt'' = Inl IndexError \<and>
   process_file (every_path (Inr [])) ''nature'' ''CatPoem.txt''
       \<lparr>mega_string = ''abc'', mini_string = ''old'', console = []\<rparr>
     = (OuterFailure IndexError,
        \<lparr>mega_string = ''abc'', mini_string = ''old'', console = [''yikes'']\<rparr>) \<and>
   process_file (every_path (Inl OSError)) ''nature'' ''NaturePoemsTheOldCatPoembyJaneDoe.txt''
       \<lparr>mega_string = ''abc'', mini_string = ''old'', console = []\<rparr>
     = (InnerFailure OSError, \<lparr>mega_string = ''abc'', mini_string = [], console = []\<rparr>)"
proof -
  let ?st = "\<lparr>mega_string = ''abc'', mini_string = ''old'', console = []\<rparr>"
  let ?file = "''NaturePoemsTheOldCatPoembyJaneDoe.txt''"
  have bad: "parse_file_name ''nature'' ''CatPoem.txt'' = Inl IndexError"
    by code_simp
  have good: "parse_file_name ''nature'' ?file = Inr (''The Old Cat '', ''Jane Doe'')"
    by code_simp
  have unreadable: "every_path (Inl OSError) (poem_url @ ''nature'' @ ''/'' @ ?file) = Inl OSError"
    by (simp add: every_path_def)
  from bad have "parse_file_name ''nature'' ''CatPoem.txt'' = Inl IndexError \<or>
      every_path (Inr []) (poem_url @ ''nature'' @ ''/'' @ ''CatPoem.txt'') = Inl IndexError"
    by blast
  from failed_file_leaves_output_unchanged
         [of "''nature''" "''CatPoem.txt''" IndexError "every_path (Inr [])" ?st, OF this] bad
  have outer: "process_file (every_path (Inr [])) ''nature'' ''CatPoem.txt'' ?st
      = (OuterFailure IndexError, ?st\<lparr>console := console ?st @ [''yikes'']\<rparr>)"
    by blast
  from unreadable have "parse_file_name ''nature'' ?file = Inl OSError \<or>
      every_path (Inl OSError) (poem_url @ ''nature'' @ ''/'' @ ?file) = Inl OSError"
    by blast
  from failed_file_leaves_output_unchanged
         [of "''nature''" ?file OSError "every_path (Inl OSError)" ?st, OF this] good
  have inner: "process_file (every_path (Inl OSError)) ''nature'' ?file ?st
      = (InnerFailure OSError, ?st\<lparr>mini_string := []\<rparr>)"
    by blast
  from bad outer inner show ?thesis by simp
qed

text \<open>
  C5, as the specification has it: the file \<^verbatim>\<open>natureCatsPoemsTheOldCatPoemby JaneDoe.txt\<close>
  of the folder \<^verbatim>\<open>nature\<close> gives the title \<^verbatim>\<open>The Old Cat\<close> and the author
  \<^verbatim>\<open>JaneDoe\<close>. The name does not hold the marker \<^verbatim>\<open>NaturePoems\<close>, so the
  split of line 13 has one piece and its subscript raises.
\<close>

theorem example_file_name_is_not_parsed:
  "parse_file_name ''nature'' ''natureCatsPoemsTheOldCatPoemby JaneDoe.txt'' = Inl IndexError \<and>
   parse_file_name ''nature'' ''natureCatsPoemsTheOldCatPoemby JaneDoe.txt''
     \<noteq> Inr (''The Old Cat'', ''JaneDoe'')"
  by code_simp

text \<open>
  C5, amended. The marker of the folder \<^verbatim>\<open>nature\<close> is \<^verbatim>\<open>NaturePoems\<close>. The file
  \<^verbatim>\<open>natureCatsPoemsTheOldCatPoemby JaneDoe.txt\<close> does not hold it: the builder
  prints \<^verbatim>\<open>yikes\<close> and skips the file. The file
  \<^verbatim>\<open>NaturePoemsTheOldCatPoemby JaneDoe.txt\<close>, which begins with the marker, gives
  the title \<^verbatim>\<open>The Old Cat\<close> followed by a space (the space put before the capital
  of \<^verbatim>\<open>Poemby\<close>) and the author \<^verbatim>\<open>Jane Doe\<close> after a space (a space is put
  before each capital, and the slice of line 29 drops one character only).
\<close>

theorem example_file_name_with_marker:
  "capitalize ''nature'' @ ''Poems'' = ''NaturePoems'' \<and>
   process_file fs ''nature'' ''natureCatsPoemsTheOldCatPoemby JaneDoe.txt'' st
     = (OuterFailure IndexError, st\<lparr>console := console st @ [''yikes'']\<rparr>) \<and>
   parse_file_name ''nature'' ''NaturePoemsTheOldCatPoemby JaneDoe.txt''
     = Inr (''The Old Cat '', '' Jane Doe'')"
proof -
  have marker: "capitalize ''nature'' @ ''Poems'' = ''NaturePoems''"
    by code_simp
  have absent: "parse_file_name ''nature'' ''natureCatsPoemsTheOldCatPoemby JaneDoe.txt''
                  = Inl IndexError"
    by code_simp
  have present: "parse_file_name ''nature'' ''NaturePoemsTheOldCatPoemby JaneDoe.txt''
                   = Inr (''The Old Cat '', '' Jane Doe'')"
    by code_simp
  from marker absent present show ?thesis
    by (simp add: process_file_def)
qed

section \<open>Searching a string\<close>

lemma py_find_occurs:
  "py_find sub s = Some i \<Longrightarrow> \<exists>q. s = take i s @ sub @ q \<and> i \<le> length s"
proof (induction s arbitrary: i)
  case Nil
  then show ?case by (simp split: if_splits)
next
  case (Cons c cs)
  show ?case
  proof (cases "prefix sub (c # cs)")
    case True
    with Cons.prems have "i = 0" by simp
    with True show ?thesis by (auto simp: prefix_def)
  next
    case False
    with Cons.prems obtain j where j: "py_find sub cs = Some j" "i = Suc j"
      by auto
    from Cons.IH [OF j(1)] obtain q where "cs = take j cs @ sub @ q" "j \<le> length cs"
      by blast
    then have "c # cs = take (Suc j) (c # cs) @ sub @ q \<and> Suc j \<le> length (c # cs)"
      by simp
    with j(2) show ?thesis by blast
  qed
qed

lemma py_find_first:
  "s = p @ sub @ q \<Longrightarrow> \<exists>i. py_find sub s = Some i \<and> i \<le> length p"
proof (induction p arbitrary: s)
  case Nil
  then have "prefix sub s" by simp
  then show ?case by (cases s) auto
next
  case (Cons a p)
  from Cons.IH [of "p @ sub @ q"] obtain j where "py_find sub (p @ sub @ q) = Some j" "j \<le> length p"
    by blast
  with Cons.prems show ?case by auto
qed

lemma py_find_None_iff: "py_find sub s = None \<longleftrightarrow> \<not> (\<exists>p q. s = p @ sub @ q)"
proof
  assume "py_find sub s = None"
  then show "\<not> (\<exists>p q. s = p @ sub @ q)"
    using py_find_first [of s _ sub] by fastforce
next
  assume no: "\<not> (\<exists>p q. s = p @ sub @ q)"
  show "py_find sub s = None"
  proof (cases "py_find sub s")
    case None
    then show ?thesis .
  next
    case (Some i)
    from py_find_occurs [OF Some] no show ?thesis by blast
  qed
qed

section \<open>One attempt\<close>

lemma attempt_body_Inr:
  "attempt_body env ds st = Inr st' \<longleftrightarrow>
     (\<exists>c i. completion_of env ds (attempt st) = Inr c \<and> py_find ''END'' c = Some i \<and>
        st' = st\<lparr>attempt := Suc (attempt st),
                  events := events st @ [LoadCheckpoint, RandomWord, Sample],
                  completion := c, first_end := i, generation := take (i + 3) c,
                  number_of_line_breaks := count_list (take (i + 3) c) NL\<rparr>)"
  by (auto simp: attempt_body_def completion_of_def py_index_def Let_def
           split: sum.splits option.splits)

lemma attempt_body_ValueError:
  "completion_of env ds (attempt st) = Inr c \<Longrightarrow> py_find ''END'' c = None \<Longrightarrow>
   attempt_body env ds st =
     Inl (ValueError, st\<lparr>attempt := Suc (attempt st),
                          events := events st @ [LoadCheckpoint, RandomWord, Sample],
                          completion := c\<rparr>)"
  by (auto simp: attempt_body_def completion_of_def py_index_def Let_def
           split: sum.splits option.splits)

lemma attempt_body_prompt_KeyError:
  "lookup_all (stoi ds) (prompt_text env (attempt st)) = Inl e \<Longrightarrow>
   attempt_body env ds st =
     Inl (e, st\<lparr>attempt := Suc (attempt st),
                 events := events st @ [LoadCheckpoint, RandomWord]\<rparr>)"
  by (auto simp: attempt_body_def Let_def split: sum.splits option.splits)

lemma attempt_body_Inl:
  "attempt_body env ds st = Inl (e, st') \<Longrightarrow>
   attempt st' = Suc (attempt st) \<and>
   (events st' = events st @ [LoadCheckpoint, RandomWord] \<or>
    events st' = events st @ [LoadCheckpoint, RandomWord, Sample])"
  by (auto simp: attempt_body_def py_index_def Let_def split: sum.splits option.splits)

lemma line_breaks_of_attempt:
  "line_breaks_of env ds (attempt st) =
     (case attempt_body env ds st of Inl (e, _) \<Rightarrow> Inl e | Inr st' \<Rightarrow> Inr (number_of_line_breaks st'))"
  by (auto simp: line_breaks_of_def attempt_body_def initial_def py_index_def Let_def
           split: sum.splits option.splits)

section \<open>The loop\<close>

lemma initial_fields:
  "18 < number_of_line_breaks initial" "attempt initial = 0" "events initial = []"
  by (simp_all add: initial_def)

lemma accepted_not_rejected: "accepted env ds k \<Longrightarrow> \<not> rejected env ds k"
  by (auto simp: accepted_def rejected_def split: sum.splits)


lemma loop_step_rejected:
  assumes "18 < number_of_line_breaks st" and "rejected env ds (attempt st)"
  shows "\<exists>st'. generation_loop env ds st = generation_loop env ds st' \<and>
               18 < number_of_line_breaks st' \<and> attempt st' = Suc (attempt st) \<and>
               events st' = events st @ attempt_events"
proof -
  from assms(2) obtain st' where body: "attempt_body env ds st = Inr st'"
      and big: "18 < number_of_line_breaks st'"
    by (auto simp: rejected_def line_breaks_of_attempt split: sum.splits prod.splits)
  from body have "attempt st' = Suc (attempt st)" and "events st' = events st @ attempt_events"
    by (auto simp: attempt_body_Inr)
  moreover from assms(1) body have "generation_loop env ds st = generation_loop env ds st'"
    by (subst generation_loop.simps) simp
  ultimately show ?thesis using big by blast
qed

lemma loop_skip_rejected:
  assumes "18 < number_of_line_breaks st" and "\<forall>j<k. rejected env ds (attempt st + j)"
  shows "\<exists>st'. generation_loop env ds st = generation_loop env ds st' \<and>
               18 < number_of_line_breaks st' \<and> attempt st' = attempt st + k \<and>
               events st' = events st @ concat (replicate k attempt_events)"
  using assms
proof (induction k arbitrary: st)
  case 0
  then show ?case by auto
next
  case (Suc k)
  from Suc.prems(2) have "rejected env ds (attempt st)"
    by (metis add.right_neutral zero_less_Suc)
  from loop_step_rejected [OF Suc.prems(1) this] obtain st1 where
      st1: "generation_loop env ds st = generation_loop env ds st1"
           "18 < number_of_line_breaks st1" "attempt st1 = Suc (attempt st)"
           "events st1 = events st @ attempt_events"
    by blast
  have "\<forall>j<k. rejected env ds (attempt st1 + j)"
  proof (intro allI impI)
    fix j assume "j < k"
    then have "Suc j < Suc k" by simp
    with Suc.prems(2) have "rejected env ds (attempt st + Suc j)" by blast
    then show "rejected env ds (attempt st1 + j)" by (simp add: st1(3))
  qed
  from Suc.IH [OF st1(2) this] obtain st' where
      "generation_loop env ds st1 = generation_loop env ds st'"
      "18 < number_of_line_breaks st'" "attempt st' = attempt st1 + k"
      "events st' = events st1 @ concat (replicate k attempt_events)"
    by blast
  with st1 show ?case by auto
qed

lemma loop_accepts:
  assumes "18 < number_of_line_breaks st" and "\<forall>j<k. rejected env ds (attempt st + j)"
    and "accepted env ds (attempt st + k)"
  shows "\<exists>st' c i. generation_loop env ds st = Some (Inr st') \<and>
           attempt st' = attempt st + Suc k \<and>
           events st' = events st @ concat (replicate k attempt_events) @ attempt_events \<and>
           completion_of env ds (attempt st + k) = Inr c \<and> py_find ''END'' c = Some i \<and>
           completion st' = c \<and> first_end st' = i \<and> generation st' = take (i + 3) c \<and>
           number_of_line_breaks st' = count_list (take (i + 3) c) NL \<and>
           number_of_line_breaks st' \<le> 18"
proof -
  from loop_skip_rejected [OF assms(1,2)] obtain st1 where
      st1: "generation_loop env ds st = generation_loop env ds st1"
           "18 < number_of_line_breaks st1" "attempt st1 = attempt st + k"
           "events st1 = events st @ concat (replicate k attempt_events)"
    by blast
  from assms(3) st1(3) have "accepted env ds (attempt st1)" by simp
  then obtain st' where body: "attempt_body env ds st1 = Inr st'"
      and small: "number_of_line_breaks st' \<le> 18"
    by (auto simp: accepted_def line_breaks_of_attempt split: sum.splits prod.splits)
  from body obtain c i where ci: "completion_of env ds (attempt st1) = Inr c"
      "py_find ''END'' c = Some i"
      "st' = st1\<lparr>attempt := Suc (attempt st1), events := events st1 @ attempt_events,
                  completion := c, first_end := i, generation := take (i + 3) c,
                  number_of_line_breaks := count_list (take (i + 3) c) NL\<rparr>"
    by (auto simp: attempt_body_Inr)
  have "generation_loop env ds st1 = Some (Inr st')"
    using st1(2) body small
    by (subst generation_loop.simps, simp, subst generation_loop.simps, simp)
  with st1 ci small show ?thesis
    by auto
qed

lemma loop_aborts:
  assumes "18 < number_of_line_breaks st" and "\<forall>j<k. rejected env ds (attempt st + j)"
    and "line_breaks_of env ds (attempt st + k) = Inl e"
  shows "\<exists>st1 st'. generation_loop env ds st = Some (Inl (e, st')) \<and>
           attempt_body env ds st1 = Inl (e, st') \<and>
           attempt st1 = attempt st + k \<and>
           events st1 = events st @ concat (replicate k attempt_events)"
proof -
  from loop_skip_rejected [OF assms(1,2)] obtain st1 where
      st1: "generation_loop env ds st = generation_loop env ds st1"
           "18 < number_of_line_breaks st1" "attempt st1 = attempt st + k"
           "events st1 = events st @ concat (replicate k attempt_events)"
    by blast
  from assms(3) st1(3) have "line_breaks_of env ds (attempt st1) = Inl e" by simp
  then obtain st' where body: "attempt_body env ds st1 = Inl (e, st')"
    by (auto simp: line_breaks_of_attempt split: sum.splits prod.splits)
  have "generation_loop env ds st1 = Some (Inl (e, st'))"
    using st1(2) body by (subst generation_loop.simps) simp
  with st1 body show ?thesis by auto
qed

lemma loop_returns_some_attempt_not_rejected:
  assumes "generation_loop env ds st = Some r"
  shows "18 < number_of_line_breaks st \<longrightarrow> (\<exists>k. \<not> rejected env ds (attempt st + k))"
proof (rule generation_loop.raw_induct
    [where P = "\<lambda>env ds st r. 18 < number_of_line_breaks st \<longrightarrow>
                   (\<exists>k. \<not> rejected env ds (attempt st + k))", OF _ assms])
  fix loop env ds st and r :: "(py_error \<times> gen_state) + gen_state"
  assume IH: "\<And>env ds st r. loop env ds st = Some r \<Longrightarrow>
                 18 < number_of_line_breaks st \<longrightarrow> (\<exists>k. \<not> rejected env ds (attempt st + k))"
    and unfolded: "(if 18 < number_of_line_breaks st
                    then case attempt_body env ds st of
                           Inl failure \<Rightarrow> Some (Inl failure)
                         | Inr st' \<Rightarrow> loop env ds st'
                    else Some (Inr st)) = Some r"
  show "18 < number_of_line_breaks st \<longrightarrow> (\<exists>k. \<not> rejected env ds (attempt st + k))"
  proof
    assume run: "18 < number_of_line_breaks st"
    show "\<exists>k. \<not> rejected env ds (attempt st + k)"
    proof (cases "rejected env ds (attempt st)")
      case False
      then have "\<not> rejected env ds (attempt st + 0)" by simp
      then show ?thesis by blast
    next
      case True
      then obtain st' where body: "attempt_body env ds st = Inr st'"
          and big: "18 < number_of_line_breaks st'"
        by (auto simp: rejected_def line_breaks_of_attempt split: sum.splits prod.splits)
      from body have att: "attempt st' = Suc (attempt st)"
        by (auto simp: attempt_body_Inr)
      from unfolded run body have "loop env ds st' = Some r" by simp
      from IH [OF this] big obtain k where "\<not> rejected env ds (attempt st' + k)"
        by blast
      with att have "\<not> rejected env ds (attempt st + Suc k)" by simp
      then show ?thesis by blast
    qed
  qed
qed

lemma first_not_rejected:
  assumes "\<not> rejected env ds (a + k)"
  shows "\<exists>m. (\<forall>j<m. rejected env ds (a + j)) \<and> \<not> rejected env ds (a + m)"
proof -
  define m where "m = (LEAST n. \<not> rejected env ds (a + n))"
  have "\<not> rejected env ds (a + m)"
    unfolding m_def using assms by (rule LeastI)
  moreover have "\<forall>j<m. rejected env ds (a + j)"
    unfolding m_def using not_less_Least by blast
  ultimately show ?thesis by blast
qed

lemma not_rejected_cases:
  "\<not> rejected env ds k \<Longrightarrow> accepted env ds k \<or> (\<exists>e. line_breaks_of env ds k = Inl e)"
  by (auto simp: rejected_def accepted_def split: sum.splits)

section \<open>The vocabulary\<close>

lemma stoi_domain: "dom (stoi (CharDataset txt b)) = set txt"
proof -
  let ?chars = "sorted_list_of_set (set txt)"
  have "fst \<circ> (\<lambda>(i :: nat, ch :: char). (ch, i)) = snd"
    by (auto simp: fun_eq_iff)
  then have "map fst (map (\<lambda>(i, ch). (ch, i)) (enumerate 0 ?chars)) = map snd (enumerate 0 ?chars)"
    by simp
  then have "map fst (map (\<lambda>(i, ch). (ch, i)) (enumerate 0 ?chars)) = ?chars"
    by (simp only: map_snd_enumerate)
  then have "fst ` set (map (\<lambda>(i, ch). (ch, i)) (enumerate 0 ?chars)) = set ?chars"
    by (metis set_map)
  then show ?thesis
    by (simp add: CharDataset_def Let_def dom_map_of_conv_image_fst)
qed

lemma stoi_None_iff: "stoi (CharDataset txt b) ch = None \<longleftrightarrow> ch \<notin> set txt"
proof -
  have "dom (stoi (CharDataset txt b)) = set txt" by (rule stoi_domain)
  then have "ch \<in> set txt \<longleftrightarrow> stoi (CharDataset txt b) ch \<noteq> None"
    by (metis domIff)
  then show ?thesis by blast
qed

lemma lookup_all_missing: "x \<in> set xs \<Longrightarrow> d x = None \<Longrightarrow> lookup_all d xs = Inl KeyError"
proof (induction xs)
  case Nil
  then show ?case by simp
next
  case (Cons y ys)
  show ?case
  proof (cases "d y")
    case None
    then show ?thesis by simp
  next
    case (Some v)
    with Cons have "lookup_all d ys = Inl KeyError" by auto
    with Some show ?thesis by simp
  qed
qed

lemma count_blocks: "count_list (concat (replicate k attempt_events)) LoadCheckpoint = k"
  by (induction k) auto

section \<open>The claims on the generation loop\<close>

text \<open>
  C1, as the specification has it: for every sequence of sampled completions
  the loop exits exactly at the first attempt whose truncated completion has at
  most 18 line breaks. Here the completion of the first attempt has no
  \<^verbatim>\<open>END\<close> and that of the second would be accepted: the run ends in the first
  attempt, with the ValueError of line 112 and nothing accepted.
\<close>

theorem abort_precedes_acceptable_attempt:
  "\<not> accepted (example_env [] [[13], [3, 4, 2]]) (CharDataset example_corpus 128) 0 \<and>
   accepted (example_env [] [[13], [3, 4, 2]]) (CharDataset example_corpus 128) 1 \<and>
   generation_loop (example_env [] [[13], [3, 4, 2]]) (CharDataset example_corpus 128) initial =
     Some (Inl (ValueError,
       \<lparr>number_of_line_breaks = 1000,
        completion = ''Poem Start'' @ [NL] @ ''a'' @ [NL, NL] @ ''x'',
        first_end = 0, generation = [], attempt = 1,
        events = [LoadCheckpoint, RandomWord, Sample]\<rparr>))"
  by code_simp

text \<open>
  C1, amended. A run that ends with an accepted result ends with at most 18
  line breaks in the kept generation, in the first attempt that is accepted,
  every attempt before it having been sampled, cut and rejected. And when the
  attempts before the first accepted one all reach the test of line 106 (none
  of them raises), the loop returns, in that attempt.
\<close>

theorem accepted_at_first_acceptable_attempt:
  "(\<forall>st. generation_loop env ds initial = Some (Inr st) \<longrightarrow>
      number_of_line_breaks st \<le> 18 \<and>
      number_of_line_breaks st = count_list (generation st) NL \<and>
      (\<exists>k. attempt st = Suc k \<and> accepted env ds k \<and> (\<forall>j<k. rejected env ds j))) \<and>
   (\<forall>k. (\<forall>j<k. rejected env ds j) \<and> accepted env ds k \<longrightarrow>
      (\<exists>st. generation_loop env ds initial = Some (Inr st) \<and> attempt st = Suc k \<and>
            number_of_line_breaks st \<le> 18))"
proof (intro conjI allI impI)
  fix k
  assume "(\<forall>j<k. rejected env ds j) \<and> accepted env ds k"
  then have "\<forall>j<k. rejected env ds (attempt initial + j)" and "accepted env ds (attempt initial + k)"
    by (simp_all add: initial_fields)
  from loop_accepts [OF initial_fields(1) this]
  show "\<exists>st. generation_loop env ds initial = Some (Inr st) \<and> attempt st = Suc k \<and>
            number_of_line_breaks st \<le> 18"
    by (auto simp: initial_fields)
next
  fix st
  assume run: "generation_loop env ds initial = Some (Inr st)"
  from loop_returns_some_attempt_not_rejected [OF run] initial_fields(1)
  obtain k0 where "\<not> rejected env ds (0 + k0)"
    by (auto simp: initial_fields)
  from first_not_rejected [OF this] obtain m where
      before: "\<forall>j<m. rejected env ds j" and here: "\<not> rejected env ds m"
    by auto
  from before have before': "\<forall>j<m. rejected env ds (attempt initial + j)"
    by (simp add: initial_fields)
  have acc: "accepted env ds m"
  proof (rule ccontr)
    assume "\<not> accepted env ds m"
    with here obtain e where "line_breaks_of env ds (attempt initial + m) = Inl e"
      using not_rejected_cases [of env ds m] by (auto simp: initial_fields)
    from loop_aborts [OF initial_fields(1) before' this] run show False by auto
  qed
  then have "accepted env ds (attempt initial + m)" by (simp add: initial_fields)
  from loop_accepts [OF initial_fields(1) before' this] run
  have fields: "attempt st = Suc m" "number_of_line_breaks st \<le> 18"
      "number_of_line_breaks st = count_list (generation st) NL"
    by (auto simp: initial_fields)
  from fields show "number_of_line_breaks st \<le> 18" by simp
  from fields show "number_of_line_breaks st = count_list (generation st) NL" by simp
  from fields acc before
  show "\<exists>k. attempt st = Suc k \<and> accepted env ds k \<and> (\<forall>j<k. rejected env ds j)"
    by blast
qed

theorem accepted_at_first_acceptable_attempt_witness:
  "rejected (example_env [] [replicate 19 0 @ [3, 4, 2], [3, 4, 2]]) (CharDataset example_corpus 128) 0 \<and>
   accepted (example_env [] [replicate 19 0 @ [3, 4, 2], [3, 4, 2]]) (CharDataset example_corpus 128) 1 \<and>
   (\<exists>st. generation_loop (example_env [] [replicate 19 0 @ [3, 4, 2], [3, 4, 2]])
            (CharDataset example_corpus 128) initial = Some (Inr st) \<and>
         attempt st = Suc 1 \<and> number_of_line_breaks st \<le> 18)"
proof -
  let ?E = "example_env [] [replicate 19 0 @ [3, 4, 2], [3, 4, 2]]"
  let ?D = "CharDataset example_corpus 128"
  have r0: "rejected ?E ?D 0" by code_simp
  have a1: "accepted ?E ?D 1" by code_simp
  from r0 have before: "\<forall>j<1. rejected ?E ?D j" by simp
  from accepted_at_first_acceptable_attempt [of ?E ?D] before a1
  have "\<exists>st. generation_loop ?E ?D initial = Some (Inr st) \<and> attempt st = Suc 1 \<and>
             number_of_line_breaks st \<le> 18"
    by blast
  with r0 a1 show ?thesis by blast
qed

text \<open>
  C4. When the decoded completion holds \<^verbatim>\<open>END\<close>, the attempt does not raise,
  and what it keeps is the completion up to and with the first \<^verbatim>\<open>END\<close>: the
  part \<open>pre\<close> before the leftmost occurrence, then \<^verbatim>\<open>END\<close>. This is also the text
  that line 117 writes. The number tested at line 106 is the number of newlines
  of that prefix alone, whatever follows the marker.
\<close>

theorem generation_is_prefix_through_first_END:
  assumes "completion_of env ds (attempt st) = Inr c" and "c = p @ ''END'' @ q"
  shows "\<exists>pre suf st'.
           c = pre @ ''END'' @ suf \<and>
           (\<forall>p' q'. c = p' @ ''END'' @ q' \<longrightarrow> length pre \<le> length p') \<and>
           attempt_body env ds st = Inr st' \<and>
           completion st' = c \<and> first_end st' = length pre \<and>
           generation st' = pre @ ''END'' \<and>
           take (first_end st' + 3) (completion st') = pre @ ''END'' \<and>
           number_of_line_breaks st' = count_list (pre @ ''END'') NL \<and>
           (accepted env ds (attempt st) \<longleftrightarrow> count_list (pre @ ''END'') NL \<le> 18) \<and>
           (rejected env ds (attempt st) \<longleftrightarrow> 18 < count_list (pre @ ''END'') NL)"
proof -
  from py_find_first [OF assms(2)] obtain i where i: "py_find ''END'' c = Some i"
    by blast
  from py_find_occurs [OF i] obtain suf where suf: "c = take i c @ ''END'' @ suf" "i \<le> length c"
    by blast
  define pre where "pre = take i c"
  have len: "length pre = i" using suf(2) by (simp add: pre_def)
  have c: "c = pre @ ''END'' @ suf" using suf(1) by (simp add: pre_def)
  have "take (i + 3) (pre @ ''END'' @ suf) = pre @ ''END''"
    using len by simp
  with c have cut: "take (i + 3) c = pre @ ''END''" by simp
  have first: "\<forall>p' q'. c = p' @ ''END'' @ q' \<longrightarrow> length pre \<le> length p'"
  proof (intro allI impI)
    fix p' q' assume "c = p' @ ''END'' @ q'"
    from py_find_first [OF this] i len show "length pre \<le> length p'" by simp
  qed
  define st' where "st' = st\<lparr>attempt := Suc (attempt st),
                  events := events st @ [LoadCheckpoint, RandomWord, Sample],
                  completion := c, first_end := i, generation := take (i + 3) c,
                  number_of_line_breaks := count_list (take (i + 3) c) NL\<rparr>"
  have body: "attempt_body env ds st = Inr st'"
    unfolding attempt_body_Inr st'_def using assms(1) i by blast
  have lb: "line_breaks_of env ds (attempt st) = Inr (count_list (pre @ ''END'') NL)"
    by (simp add: line_breaks_of_attempt body st'_def cut)
  have "completion st' = c" "first_end st' = length pre" "generation st' = pre @ ''END''"
       "take (first_end st' + 3) (completion st') = pre @ ''END''"
       "number_of_line_breaks st' = count_list (pre @ ''END'') NL"
    by (simp_all add: st'_def cut len)
  moreover have "accepted env ds (attempt st) \<longleftrightarrow> count_list (pre @ ''END'') NL \<le> 18"
    by (simp add: accepted_def lb)
  moreover have "rejected env ds (attempt st) \<longleftrightarrow> 18 < count_list (pre @ ''END'') NL"
    by (simp add: rejected_def lb)
  ultimately show ?thesis using c first body by blast
qed

theorem generation_is_prefix_witness:
  "completion_of (example_env [] [[3, 4, 2, 0, 3, 4, 2]]) (CharDataset example_corpus 128) 0
     = Inr (''Poem Start'' @ [NL] @ ''a'' @ [NL, NL] @ ''END'' @ [NL] @ ''END'') \<and>
   attempt_body (example_env [] [[3, 4, 2, 0, 3, 4, 2]]) (CharDataset example_corpus 128) initial
     = Inr \<lparr>number_of_line_breaks = 3,
            completion = ''Poem Start'' @ [NL] @ ''a'' @ [NL, NL] @ ''END'' @ [NL] @ ''END'',
            first_end = 14,
            generation = ''Poem Start'' @ [NL] @ ''a'' @ [NL, NL] @ ''END'',
            attempt = 1, events = [LoadCheckpoint, RandomWord, Sample]\<rparr> \<and>
   (\<exists>pre suf. ''Poem Start'' @ [NL] @ ''a'' @ [NL, NL] @ ''END'' @ [NL] @ ''END'' = pre @ ''END'' @ suf \<and>
        ''Poem Start'' @ [NL] @ ''a'' @ [NL, NL] @ ''END'' = pre @ ''END'' \<and>
        length pre = 14 \<and> count_list (pre @ ''END'') NL = 3)"
proof -
  let ?E = "example_env [] [[3, 4, 2, 0, 3, 4, 2]]"
  let ?D = "CharDataset example_corpus 128"
  let ?c = "''Poem Start'' @ [NL] @ ''a'' @ [NL, NL] @ ''END'' @ [NL] @ ''END''"
  let ?S = "\<lparr>number_of_line_breaks = 3, completion = ?c, first_end = 14,
             generation = ''Poem Start'' @ [NL] @ ''a'' @ [NL, NL] @ ''END'',
             attempt = 1, events = [LoadCheckpoint, RandomWord, Sample]\<rparr>"
  have h1: "completion_of ?E ?D (attempt initial) = Inr ?c" by code_simp
  have h1': "completion_of ?E ?D 0 = Inr ?c" by code_simp
  have h2: "?c = (''Poem Start'' @ [NL] @ ''a'' @ [NL, NL]) @ ''END'' @ ([NL] @ ''END'')" by simp
  have body: "attempt_body ?E ?D initial = Inr ?S" by code_simp
  from generation_is_prefix_through_first_END [OF h1 h2] obtain pre suf st' where
      *: "?c = pre @ ''END'' @ suf" "attempt_body ?E ?D initial = Inr st'"
         "first_end st' = length pre" "generation st' = pre @ ''END''"
         "number_of_line_breaks st' = count_list (pre @ ''END'') NL"
    by blast
  from *(2) body have "st' = ?S" by simp
  with *(3,4,5) have "''Poem Start'' @ [NL] @ ''a'' @ [NL, NL] @ ''END'' = pre @ ''END''"
      "length pre = 14" "count_list (pre @ ''END'') NL = 3"
    by simp_all
  with *(1) h1' body show ?thesis by blast
qed

text \<open>
  C6. When the completion of an attempt that the loop reaches has no \<^verbatim>\<open>END\<close>,
  the lookup of line 112 raises ValueError and the run ends in that attempt:
  there is no further attempt, and the script ends with the exception, writing
  nothing.
\<close>

theorem missing_END_ends_the_program:
  assumes "\<forall>j<k. rejected env ds j" and "completion_of env ds k = Inr c"
    and "\<not> (\<exists>p q. c = p @ ''END'' @ q)"
  shows "py_index c ''END'' = Inl ValueError \<and>
         (\<exists>st. generation_loop env ds initial = Some (Inl (ValueError, st)) \<and>
               attempt st = Suc k \<and> completion st = c \<and>
               events st = concat (replicate k [LoadCheckpoint, RandomWord, Sample])
                             @ [LoadCheckpoint, RandomWord, Sample]) \<and>
         (\<forall>txt. ds = CharDataset txt 128 \<longrightarrow> poem_gen env txt = Some (Inl ValueError))"
proof -
  from assms(3) have none: "py_find ''END'' c = None"
    by (simp add: py_find_None_iff)
  then have idx: "py_index c ''END'' = Inl ValueError"
    by (simp add: py_index_def)
  from assms(1) have before: "\<forall>j<k. rejected env ds (attempt initial + j)"
    by (simp add: initial_fields)
  from loop_skip_rejected [OF initial_fields(1) before] obtain st1 where
      st1: "generation_loop env ds initial = generation_loop env ds st1"
           "18 < number_of_line_breaks st1" "attempt st1 = k"
           "events st1 = concat (replicate k attempt_events)"
    by (auto simp: initial_fields)
  from assms(2) st1(3) have "completion_of env ds (attempt st1) = Inr c" by simp
  from attempt_body_ValueError [OF this none]
  have body: "attempt_body env ds st1 =
     Inl (ValueError, st1\<lparr>attempt := Suc (attempt st1),
                          events := events st1 @ attempt_events, completion := c\<rparr>)" .
  have run: "generation_loop env ds initial =
     Some (Inl (ValueError, st1\<lparr>attempt := Suc (attempt st1),
                          events := events st1 @ attempt_events, completion := c\<rparr>))"
    unfolding st1(1) using st1(2) body by (subst generation_loop.simps) simp
  then have "\<exists>st. generation_loop env ds initial = Some (Inl (ValueError, st)) \<and>
               attempt st = Suc k \<and> completion st = c \<and>
               events st = concat (replicate k attempt_events) @ attempt_events"
    using st1(3,4) by simp
  moreover from run have "\<forall>txt. ds = CharDataset txt 128 \<longrightarrow> poem_gen env txt = Some (Inl ValueError)"
    by (auto simp: poem_gen_def)
  ultimately show ?thesis using idx by blast
qed

theorem missing_END_witness:
  "rejected (example_env [] [replicate 19 0 @ [3, 4, 2], [13]]) (CharDataset example_corpus 128) 0 \<and>
   completion_of (example_env [] [replicate 19 0 @ [3, 4, 2], [13]]) (CharDataset example_corpus 128) 1
     = Inr (''Poem Start'' @ [NL] @ ''a'' @ [NL, NL] @ ''x'') \<and>
   py_find ''END'' (''Poem Start'' @ [NL] @ ''a'' @ [NL, NL] @ ''x'') = None \<and>
   poem_gen (example_env [] [replicate 19 0 @ [3, 4, 2], [13]]) example_corpus = Some (Inl ValueError) \<and>
   (\<exists>st. generation_loop (example_env [] [replicate 19 0 @ [3, 4, 2], [13]])
            (CharDataset example_corpus 128) initial = Some (Inl (ValueError, st)) \<and>
         attempt st = Suc 1)"
proof -
  let ?E = "example_env [] [replicate 19 0 @ [3, 4, 2], [13]]"
  let ?D = "CharDataset example_corpus 128"
  let ?c = "''Poem Start'' @ [NL] @ ''a'' @ [NL, NL] @ ''x''"
  have r0: "rejected ?E ?D 0" by code_simp
  then have before: "\<forall>j<1. rejected ?E ?D j" by simp
  have c1: "completion_of ?E ?D 1 = Inr ?c" by code_simp
  have none: "py_find ''END'' ?c = None" by code_simp
  then have absent: "\<not> (\<exists>p q. ?c = p @ ''END'' @ q)"
    by (rule iffD1 [OF py_find_None_iff])
  from missing_END_ends_the_program [OF before c1 absent]
  have "poem_gen ?E example_corpus = Some (Inl ValueError)"
    and "\<exists>st. generation_loop ?E ?D initial = Some (Inl (ValueError, st)) \<and> attempt st = Suc 1"
    by blast+
  with r0 c1 none show ?thesis by blast
qed

text \<open>
  C7. Every pass of the body loads the checkpoint first, then draws the word,
  then samples (when the prompt could be encoded). After \<open>n\<close> rejected attempts
  the loop goes on from a state with \<open>n\<close> loads; and a run whose \<open>k\<close> first
  attempts are rejected and whose next one is not ends there, after \<open>k + 1\<close>
  attempts and \<open>k + 1\<close> loads.
\<close>

theorem checkpoint_loaded_once_per_attempt:
  "(\<forall>st. \<exists>tail. events (final_state (attempt_body env ds st)) = events st @ LoadCheckpoint # tail \<and>
              (tail = [RandomWord] \<or> tail = [RandomWord, Sample])) \<and>
   (\<forall>n. (\<forall>j<n. rejected env ds j) \<longrightarrow>
      (\<exists>st. generation_loop env ds initial = generation_loop env ds st \<and> attempt st = n \<and>
            events st = concat (replicate n [LoadCheckpoint, RandomWord, Sample]) \<and>
            count_list (events st) LoadCheckpoint = n)) \<and>
   (\<forall>k. (\<forall>j<k. rejected env ds j) \<and> \<not> rejected env ds k \<longrightarrow>
      (\<exists>r tail. generation_loop env ds initial = Some r \<and>
            attempt (final_state r) = Suc k \<and>
            events (final_state r) =
              concat (replicate k [LoadCheckpoint, RandomWord, Sample]) @ LoadCheckpoint # tail \<and>
            (tail = [RandomWord] \<or> tail = [RandomWord, Sample]) \<and>
            count_list (events (final_state r)) LoadCheckpoint = Suc k))"
proof (intro conjI allI impI)
  fix st
  show "\<exists>tail. events (final_state (attempt_body env ds st)) = events st @ LoadCheckpoint # tail \<and>
              (tail = [RandomWord] \<or> tail = [RandomWord, Sample])"
    by (auto simp: final_state_def attempt_body_def py_index_def Let_def
             split: sum.splits option.splits)
next
  fix n
  assume "\<forall>j<n. rejected env ds j"
  then have "\<forall>j<n. rejected env ds (attempt initial + j)" by (simp add: initial_fields)
  from loop_skip_rejected [OF initial_fields(1) this]
  show "\<exists>st. generation_loop env ds initial = generation_loop env ds st \<and> attempt st = n \<and>
            events st = concat (replicate n attempt_events) \<and>
            count_list (events st) LoadCheckpoint = n"
    by (auto simp: initial_fields count_blocks)
next
  fix k
  assume "(\<forall>j<k. rejected env ds j) \<and> \<not> rejected env ds k"
  then have before: "\<forall>j<k. rejected env ds (attempt initial + j)"
      and last: "\<not> rejected env ds k"
    by (simp_all add: initial_fields)
  from loop_skip_rejected [OF initial_fields(1) before] obtain st1 where
      st1: "generation_loop env ds initial = generation_loop env ds st1"
           "18 < number_of_line_breaks st1" "attempt st1 = k"
           "events st1 = concat (replicate k attempt_events)"
    by (auto simp: initial_fields)
  define r where "r = attempt_body env ds st1"
  have ends: "generation_loop env ds st1 = Some r"
  proof (cases r)
    case (Inl failure)
    then show ?thesis
      using st1(2) unfolding r_def by (subst generation_loop.simps) simp
  next
    case (Inr st')
    with last st1(3) have "number_of_line_breaks st' \<le> 18"
      by (auto simp: rejected_def r_def line_breaks_of_attempt [of env ds st1, simplified])
    with Inr show ?thesis
      using st1(2) unfolding r_def
      by (subst generation_loop.simps, simp, subst generation_loop.simps, simp)
  qed
  have att: "attempt (final_state r) = Suc k"
    using st1(3) unfolding r_def
    by (auto simp: final_state_def attempt_body_def py_index_def Let_def
             split: sum.splits option.splits)
  have "\<exists>tail. events (final_state r) = events st1 @ LoadCheckpoint # tail \<and>
              (tail = [RandomWord] \<or> tail = [RandomWord, Sample])"
    unfolding r_def
    by (auto simp: final_state_def attempt_body_def py_index_def Let_def
             split: sum.splits option.splits)
  then obtain tail where tail: "events (final_state r) = concat (replicate k attempt_events) @ LoadCheckpoint # tail"
      "tail = [RandomWord] \<or> tail = [RandomWord, Sample]"
    using st1(4) by auto
  have "count_list (events (final_state r)) LoadCheckpoint = Suc k"
    using tail by (auto simp: count_blocks)
  with ends st1(1) att tail
  show "\<exists>r tail. generation_loop env ds initial = Some r \<and>
            attempt (final_state r) = Suc k \<and>
            events (final_state r) = concat (replicate k attempt_events) @ LoadCheckpoint # tail \<and>
            (tail = [RandomWord] \<or> tail = [RandomWord, Sample]) \<and>
            count_list (events (final_state r)) LoadCheckpoint = Suc k"
    by auto
qed

theorem checkpoint_loaded_witness:
  "rejected (example_env [] [replicate 19 0 @ [3, 4, 2], [3, 4, 2]]) (CharDataset example_corpus 128) 0 \<and>
   \<not> rejected (example_env [] [replicate 19 0 @ [3, 4, 2], [3, 4, 2]]) (CharDataset example_corpus 128) 1 \<and>
   (\<exists>r. generation_loop (example_env [] [replicate 19 0 @ [3, 4, 2], [3, 4, 2]])
            (CharDataset example_corpus 128) initial = Some r \<and>
        attempt (final_state r) = Suc 1 \<and>
        count_list (events (final_state r)) LoadCheckpoint = Suc 1)"
proof -
  let ?E = "example_env [] [replicate 19 0 @ [3, 4, 2], [3, 4, 2]]"
  let ?D = "CharDataset example_corpus 128"
  have r0: "rejected ?E ?D 0" by code_simp
  then have before: "\<forall>j<1. rejected ?E ?D j" by simp
  have n1: "\<not> rejected ?E ?D 1" by code_simp
  from checkpoint_loaded_once_per_attempt [of ?E ?D] before n1
  have "\<exists>r. generation_loop ?E ?D initial = Some r \<and> attempt (final_state r) = Suc 1 \<and>
            count_list (events (final_state r)) LoadCheckpoint = Suc 1"
    by blast
  with r0 n1 show ?thesis by blast
qed

text \<open>
  C10. The encoding map has the characters of the corpus as its keys and no
  others. So when the word drawn in an attempt that the loop reaches has a
  character that the corpus lacks, the lookup of line 109 raises KeyError, the
  run ends there before any sampling, and the script ends with the exception.
\<close>

theorem unknown_character_ends_the_program:
  assumes "\<forall>j<k. rejected env (CharDataset txt b) j"
    and "ch \<in> set (get_random_word env k)" and "ch \<notin> set txt"
  shows "dom (stoi (CharDataset txt b)) = set txt \<and>
         stoi (CharDataset txt b) ch = None \<and>
         lookup_all (stoi (CharDataset txt b)) (prompt_text env k) = Inl KeyError \<and>
         (\<exists>st. generation_loop env (CharDataset txt b) initial = Some (Inl (KeyError, st)) \<and>
               attempt st = Suc k \<and>
               events st = concat (replicate k [LoadCheckpoint, RandomWord, Sample])
                             @ [LoadCheckpoint, RandomWord]) \<and>
         (b = 128 \<longrightarrow> poem_gen env txt = Some (Inl KeyError))"
proof -
  let ?ds = "CharDataset txt b"
  from assms(3) have none: "stoi ?ds ch = None"
    by (simp add: stoi_None_iff)
  from assms(2) have "ch \<in> set (prompt_text env k)"
    by (simp add: prompt_text_def)
  then have key: "lookup_all (stoi ?ds) (prompt_text env k) = Inl KeyError"
    using none by (rule lookup_all_missing)
  from assms(1) have before: "\<forall>j<k. rejected env ?ds (attempt initial + j)"
    by (simp add: initial_fields)
  from loop_skip_rejected [OF initial_fields(1) before] obtain st1 where
      st1: "generation_loop env ?ds initial = generation_loop env ?ds st1"
           "18 < number_of_line_breaks st1" "attempt st1 = k"
           "events st1 = concat (replicate k attempt_events)"
    by (auto simp: initial_fields)
  from key st1(3) have "lookup_all (stoi ?ds) (prompt_text env (attempt st1)) = Inl KeyError"
    by simp
  from attempt_body_prompt_KeyError [OF this]
  have body: "attempt_body env ?ds st1 =
     Inl (KeyError, st1\<lparr>attempt := Suc (attempt st1),
                        events := events st1 @ [LoadCheckpoint, RandomWord]\<rparr>)" .
  have run: "generation_loop env ?ds initial =
     Some (Inl (KeyError, st1\<lparr>attempt := Suc (attempt st1),
                        events := events st1 @ [LoadCheckpoint, RandomWord]\<rparr>))"
    unfolding st1(1) using st1(2) body by (subst generation_loop.simps) simp
  then have "\<exists>st. generation_loop env ?ds initial = Some (Inl (KeyError, st)) \<and>
               attempt st = Suc k \<and>
               events st = concat (replicate k attempt_events) @ [LoadCheckpoint, RandomWord]"
    using st1(3,4) by simp
  moreover from run have "b = 128 \<longrightarrow> poem_gen env txt = Some (Inl KeyError)"
    by (auto simp: poem_gen_def)
  ultimately show ?thesis using none key stoi_domain [of "txt" b] by blast
qed

theorem unknown_character_witness:
  "rejected (example_env [''a'', ''z''] [replicate 19 0 @ [3, 4, 2]]) (CharDataset example_corpus 128) 0 \<and>
   CHR ''z'' \<in> set (get_random_word (example_env [''a'', ''z''] [replicate 19 0 @ [3, 4, 2]]) 1) \<and>
   CHR ''z'' \<notin> set example_corpus \<and>
   poem_gen (example_env [''a'', ''z''] [replicate 19 0 @ [3, 4, 2]]) example_corpus
     = Some (Inl KeyError) \<and>
   (\<exists>st. generation_loop (example_env [''a'', ''z''] [replicate 19 0 @ [3, 4, 2]])
            (CharDataset example_corpus 128) initial = Some (Inl (KeyError, st)) \<and>
         attempt st = Suc 1 \<and>
         events st = [LoadCheckpoint, RandomWord, Sample, LoadCheckpoint, RandomWord])"
proof -
  let ?E = "example_env [''a'', ''z''] [replicate 19 0 @ [3, 4, 2]]"
  let ?D = "CharDataset example_corpus 128"
  have r0: "rejected ?E ?D 0" by code_simp
  then have before: "\<forall>j<1. rejected ?E ?D j" by simp
  have word: "CHR ''z'' \<in> set (get_random_word ?E 1)"
    by (simp add: example_env_def)
  have new: "CHR ''z'' \<notin> set example_corpus"
    by (simp add: example_corpus_def)
  from unknown_character_ends_the_program [OF before word new]
  have "poem_gen ?E example_corpus = Some (Inl KeyError)"
    and "\<exists>st. generation_loop ?E ?D initial = Some (Inl (KeyError, st)) \<and> attempt st = Suc 1 \<and>
           events st = concat (replicate 1 attempt_events) @ [LoadCheckpoint, RandomWord]"
    by blast+
  moreover have "concat (replicate 1 attempt_events) @ [LoadCheckpoint, RandomWord]
      = [LoadCheckpoint, RandomWord, Sample, LoadCheckpoint, RandomWord]"
    by simp
  ultimately show ?thesis using r0 word new by (simp only:) blast
qed

end
